theory Spec2Isabelle
  imports Main "HOL-Library.Multiset" "HOL-Library.Product_Lexorder"
begin

section \<open>Data model of lint.ts\<close>

text \<open>
  Positions and times are JavaScript numbers holding integers; they are modelled as
  \<open>int\<close>. JavaScript objects are compared by reference (\<open>==\<close> on two
  diagnostics): every \<open>Diagnostic\<close> carries the address \<open>ref\<close> of its object, and
  two objects made separately have different addresses, so equality of the records is
  the source's reference comparison.
\<close>

datatype Severity = Info | Warning | Error

text \<open>\<open>action_apply\<close> is the reference of the callback: the model never calls it.\<close>

record Action =
  action_name :: string
  action_apply :: nat

record Diagnostic =
  ref :: nat
  "from" :: int
  to :: int
  severity :: Severity
  source :: "string option"
  message :: string
  actions :: "Action list option"

text \<open>\<open>class SelectedDiagnostic\<close>: three read-only fields set by the constructor.\<close>

datatype SelectedDiagnostic =
  SelectedDiagnostic (sel_from: int) (sel_to: int) (sel_diagnostic: Diagnostic)

subsection \<open>The decoration set (declared in the view package)\<close>

text \<open>
  The specs built at lines 73-80: a mark carries its \<open>class\<close> attribute, kept as
  the name the source passes to \<open>themeClass\<close> (a function of the view package),
  and the diagnostic; a widget carries \<open>new DiagnosticWidget(d)\<close> (whose value is
  \<open>d\<close>) and the diagnostic. \<open>spec_diagnostic\<close> is \<open>spec.diagnostic\<close>.
\<close>

datatype Decoration =
    MarkDecoration (mark_class: string) (spec_diagnostic: Diagnostic)
  | WidgetDecoration (widget: Diagnostic) (spec_diagnostic: Diagnostic)

text \<open>A range of a decoration set: \<open>from\<close>, \<open>to\<close> and the decoration.\<close>

datatype RangeDeco =
  RangeDeco (range_from: int) (range_to: int) (range_value: Decoration)

type_synonym DecorationSet = "RangeDeco list"

text \<open>The severity as the string the source holds.\<close>

fun severity_name :: "Severity \<Rightarrow> string" where
  "severity_name Info = ''info''"
| "severity_name Warning = ''warning''"
| "severity_name Error = ''error''"

text \<open>
  \<open>Decoration.mark(from, to, spec)\<close> and \<open>Decoration.widget(pos, spec)\<close>: a mark
  covers \<open>from..to\<close>, a widget sits at one position. The reducer asks for a mark
  only when \<open>from < to\<close>.
\<close>

definition Decoration_mark :: "int \<Rightarrow> int \<Rightarrow> string \<Rightarrow> Diagnostic \<Rightarrow> RangeDeco" where
  "Decoration_mark f t cls d = RangeDeco f t (MarkDecoration cls d)"

definition Decoration_widget :: "int \<Rightarrow> Diagnostic \<Rightarrow> Diagnostic \<Rightarrow> RangeDeco" where
  "Decoration_widget pos w d = RangeDeco pos pos (WidgetDecoration w d)"

text \<open>
  Modelled from the spec: the decoration set (\<open>DecorationSet\<close>, \<open>Decoration.set\<close>,
  \<open>Decoration.none\<close>, \<open>between\<close>, \<open>length\<close>) is declared in the view package,
  which is not among the sources. The spec's RangeAnchorSet is an "ordered-by-position
  collection" whose query "visits all entries overlapping the ... range in position
  order; visitor may halt early", the order being "ascending from, ties broken by
  ascending to ... regardless of insertion order". The set is a list sorted by
  \<open>(from, to)\<close>, built by a stable insertion sort.
\<close>

definition range_key :: "RangeDeco \<Rightarrow> int \<times> int" where
  "range_key r = (range_from r, range_to r)"

text \<open>Modelled from the spec: \<open>Decoration.none\<close> of the view package, the empty set.\<close>

definition Decoration_none :: DecorationSet where
  "Decoration_none = []"

text \<open>
  Modelled from the spec: \<open>Decoration.set\<close> of the view package, which puts the
  ranges it is given in position order, ranges with equal keys in the order given.
\<close>

definition Decoration_set :: "RangeDeco list \<Rightarrow> DecorationSet" where
  "Decoration_set rs = sort_key range_key rs"

text \<open>
  Modelled from the spec: the ranges a query of the view package's set visits, those
  "overlapping the ... range": a range touches \<open>qfrom..qto\<close> when it starts at
  \<open>qto\<close> or before and ends at \<open>qfrom\<close> or after.
\<close>

definition touches :: "int \<Rightarrow> int \<Rightarrow> RangeDeco \<Rightarrow> bool" where
  "touches qfrom qto r = (range_from r \<le> qto \<and> qfrom \<le> range_to r)"

text \<open>
  Modelled from the spec: \<open>between\<close> of the view package's set calls the visitor on
  every range that touches \<open>qfrom..qto\<close>, in the set's order, until the visitor
  returns \<open>false\<close>. The visitor of the source writes variables of the enclosing
  function; in the model it takes them as a state, and returns the state with
  \<open>False\<close> where the source returns \<open>false\<close> and \<open>True\<close> where it returns
  nothing.
\<close>

fun between ::
  "DecorationSet \<Rightarrow> int \<Rightarrow> int \<Rightarrow> (int \<Rightarrow> int \<Rightarrow> Decoration \<Rightarrow> 's \<Rightarrow> 's \<times> bool) \<Rightarrow> 's \<Rightarrow> 's"
where
  "between [] qfrom qto f s = s"
| "between (r # rs) qfrom qto f s =
     (if touches qfrom qto r
      then (case f (range_from r) (range_to r) (range_value r) s of
              (s', continue) \<Rightarrow> if continue then between rs qfrom qto f s' else s')
      else between rs qfrom qto f s)"

text \<open>
  Modelled from the spec: the \<open>length\<close> of the view package's set is the extent it
  covers, here the largest end of its ranges (0 for the empty set), so that a query up
  to \<open>length\<close> passes no range by for lying too far right.
\<close>

definition set_length :: "DecorationSet \<Rightarrow> int" where
  "set_length ds = fold (\<lambda>r m. max m (range_to r)) ds 0"

subsection \<open>LintState and findDiagnostic\<close>

text \<open>
  The \<open>panel\<close> field holds a function reference or \<open>null\<close>; the only function this
  file stores there is \<open>LintPanel.open\<close>.
\<close>

datatype PanelConstructor = LintPanel_open | OtherPanel nat

record LintState =
  diagnostics :: DecorationSet
  panel :: "PanelConstructor option"
  selected :: "SelectedDiagnostic option"

text \<open>
  \<open>findDiagnostic\<close> (lines 48-56). The visitor skips a range when a diagnostic is
  asked for and the range holds another one; otherwise it stores the range in
  \<open>found\<close> and stops the iteration.
\<close>

definition findDiagnostic_visit ::
  "Diagnostic option \<Rightarrow> int \<Rightarrow> int \<Rightarrow> Decoration \<Rightarrow> SelectedDiagnostic option
     \<Rightarrow> SelectedDiagnostic option \<times> bool" where
  "findDiagnostic_visit diagnostic f t deco found =
     (case diagnostic of
        Some d \<Rightarrow>
          if spec_diagnostic deco \<noteq> d then (found, True)
          else (Some (SelectedDiagnostic f t (spec_diagnostic deco)), False)
      | None \<Rightarrow> (Some (SelectedDiagnostic f t (spec_diagnostic deco)), False))"

definition findDiagnostic ::
  "DecorationSet \<Rightarrow> Diagnostic option \<Rightarrow> int \<Rightarrow> SelectedDiagnostic option" where
  "findDiagnostic ds diagnostic after =
     between ds after (set_length ds) (findDiagnostic_visit diagnostic) None"

subsection \<open>Transactions\<close>

text \<open>
  The change set of a transaction is the state package's. The reducer uses two things
  of it, taken here as the two fields of the record: \<open>mapPos pos bias\<close>, and how a
  decoration set is mapped through the changes (\<open>DecorationSet.map\<close>, which the
  source calls as \<open>value.diagnostics.map(tr.changes)\<close>). Every theorem below that
  speaks of a document change holds for all such functions.
\<close>

record ChangeSet =
  mapPos :: "int \<Rightarrow> int \<Rightarrow> int"
  mapSet :: "DecorationSet \<Rightarrow> DecorationSet"

definition DecorationSet_map :: "DecorationSet \<Rightarrow> ChangeSet \<Rightarrow> DecorationSet" where
  "DecorationSet_map ds changes = mapSet changes ds"

text \<open>
  A transaction as the reducer reads it: \<open>tr.annotation(setDiagnostics)\<close>,
  \<open>tr.annotation(setState)\<close> (\<open>None\<close> when the annotation is absent),
  \<open>tr.docChanged\<close> and \<open>tr.changes\<close>.
\<close>

record Transaction =
  setDiagnostics :: "Diagnostic list option"
  setState :: "LintState option"
  docChanged :: bool
  changes :: ChangeSet

text \<open>The editor state: the document's length and the lint field, when attached.\<close>

record EditorState =
  doc_length :: int
  field :: "LintState option"

subsection \<open>The state field lintState\<close>

text \<open>The range built for one diagnostic (lines 72-80).\<close>

definition diagnostic_range :: "Diagnostic \<Rightarrow> RangeDeco" where
  "diagnostic_range d =
     (if from d < to d
      then Decoration_mark (from d) (to d) (''lintRange.'' @ severity_name (severity d)) d
      else Decoration_widget (from d) d d)"

definition create :: LintState where
  "create = \<lparr>diagnostics = Decoration_none, panel = None, selected = None\<rparr>"

text \<open>
  What \<open>update\<close> returns is an object: the prior state itself (\<open>return value\<close>),
  the object the \<open>setState\<close> annotation holds (\<open>return newState\<close>), or a state
  made by \<open>new LintState(...)\<close>. \<open>Returned\<close> keeps the three apart, so that
  returning the prior object differs from returning an equal copy. The reducer
  (lines 68-98) takes the prior state \<open>v\<close> (\<open>value\<close> in the source), the
  transaction and the editor state, which it does not read.
\<close>

datatype Returned = Prior | Annotated LintState | Constructed LintState

definition update :: "LintState \<Rightarrow> Transaction \<Rightarrow> EditorState \<Rightarrow> Returned" where
  "update v tr state =
     (case setDiagnostics tr of
        Some setDiag \<Rightarrow>
          (let ranges = Decoration_set (map diagnostic_range setDiag)
           in Constructed \<lparr>diagnostics = ranges, panel = panel v,
                           selected = findDiagnostic ranges None 0\<rparr>)
      | None \<Rightarrow>
          (case setState tr of
             Some newState \<Rightarrow> Annotated newState
           | None \<Rightarrow>
               if docChanged tr then
                 (let mapped = DecorationSet_map (diagnostics v) (changes tr);
                      selected' =
                        (case selected v of
                           Some sel \<Rightarrow>
                             (let selPos = mapPos (changes tr) (sel_from sel) 1
                              in (case findDiagnostic mapped (Some (sel_diagnostic sel)) selPos of
                                    Some found \<Rightarrow> Some found
                                  | None \<Rightarrow> findDiagnostic mapped None selPos))
                         | None \<Rightarrow> None)
                  in Constructed \<lparr>diagnostics = mapped, panel = panel v, selected = selected'\<rparr>)
               else Prior))"

text \<open>The state the field holds after the transaction.\<close>

definition new_value :: "LintState \<Rightarrow> Transaction \<Rightarrow> EditorState \<Rightarrow> LintState" where
  "new_value v tr state =
     (case update v tr state of Prior \<Rightarrow> v | Annotated s \<Rightarrow> s | Constructed s \<Rightarrow> s)"

subsection \<open>The commands openLintPanel and closeLintPanel, and dispatch\<close>

text \<open>
  What the commands read and change of the view: its state, the transactions
  dispatched on it (oldest first), and whether the panel's list was given the focus.
\<close>

record EditorView =
  state :: EditorState
  dispatched :: "Transaction list"
  focused :: bool

text \<open>
  Modelled from the spec: the change set of a transaction that changes nothing (change
  sets are the state package's); "remapping ... through an empty change set yields
  byte-identical positions".
\<close>

definition no_changes :: ChangeSet where
  "no_changes = \<lparr>mapPos = (\<lambda>pos bias. pos), mapSet = (\<lambda>ds. ds)\<rparr>"

text \<open>
  Modelled from the spec: \<open>view.state.t()\<close> of the state package, a new transaction
  with no annotation and no change; \<open>annotate\<close> adds an annotation to it.
\<close>

definition state_t :: Transaction where
  "state_t = \<lparr>setDiagnostics = None, setState = None, docChanged = False, changes = no_changes\<rparr>"

definition annotate_setState :: "LintState \<Rightarrow> Transaction \<Rightarrow> Transaction" where
  "annotate_setState s tr = tr\<lparr>setState := Some s\<rparr>"

definition annotate_setDiagnostics :: "Diagnostic list \<Rightarrow> Transaction \<Rightarrow> Transaction" where
  "annotate_setDiagnostics D tr = tr\<lparr>setDiagnostics := Some D\<rparr>"

text \<open>
  Modelled from the spec: \<open>view.dispatch(tr)\<close> of the view package. The lint state
  is "replaced wholesale on every transaction": the lint field, when attached, takes
  the value the reducer gives; the transaction is logged. The document's length after
  the transaction is given by the caller (it is the old one for a transaction without
  changes).
\<close>

definition dispatch_doc :: "EditorView \<Rightarrow> Transaction \<Rightarrow> int \<Rightarrow> EditorView" where
  "dispatch_doc view tr len =
     view\<lparr>state := \<lparr>doc_length = len,
                      field = map_option (\<lambda>v. new_value v tr (state view)) (field (state view))\<rparr>,
          dispatched := dispatched view @ [tr]\<rparr>"

definition dispatch :: "EditorView \<Rightarrow> Transaction \<Rightarrow> EditorView" where
  "dispatch view tr = dispatch_doc view tr (doc_length (state view))"

text \<open>
  \<open>openLintPanel\<close> (lines 147-155). \<open>view.state.field(lintState, false)\<close> is the
  \<open>field\<close> of the state; the second read, \<open>view.state.field(lintState)\<close>, throws
  when the field is absent, which is the result \<open>None\<close>. The command returns its
  boolean and leaves the view changed. The list element it focuses is looked up in the
  document tree, where the panel package has put it once the state holds a panel; the
  model records that the focus was asked for.
\<close>

definition openLintPanel :: "EditorView \<Rightarrow> (bool \<times> EditorView) option" where
  "openLintPanel view =
     (case field (state view) of
        None \<Rightarrow> Some (False, view)
      | Some fld \<Rightarrow>
          (let view1 =
                 (if panel fld = None
                  then dispatch view
                         (annotate_setState
                            \<lparr>diagnostics = diagnostics fld, panel = Some LintPanel_open,
                             selected = selected fld\<rparr> state_t)
                  else view)
           in (case field (state view1) of
                 None \<Rightarrow> None
               | Some fld1 \<Rightarrow>
                   Some (True, if panel fld1 \<noteq> None then view1\<lparr>focused := True\<rparr> else view1))))"

text \<open>\<open>closeLintPanel\<close> (lines 158-163).\<close>

definition closeLintPanel :: "EditorView \<Rightarrow> bool \<times> EditorView" where
  "closeLintPanel view =
     (case field (state view) of
        None \<Rightarrow> (False, view)
      | Some fld \<Rightarrow>
          if panel fld = None then (False, view)
          else (True, dispatch view
                        (annotate_setState
                           \<lparr>diagnostics = diagnostics fld, panel = None,
                            selected = selected fld\<rparr> state_t)))"

subsection \<open>The plugin that runs the linter\<close>

definition LintDelay :: int where
  "LintDelay = 500"

text \<open>
  \<open>RunLintPlugin\<close> (lines 171-201) with what it acts on. \<open>lintTime\<close> and \<open>set'\<close>
  are the plugin's fields (\<open>set\<close> in the source). \<open>timers\<close> holds the due times of
  the pending \<open>setTimeout(this.run, _)\<close> calls, in the order they were armed;
  \<open>invoked\<close> holds the times at which \<open>source(this.view)\<close> was called and its result
  dispatched, oldest first. \<open>Date.now()\<close> is the argument \<open>now\<close> of each operation.
\<close>

record RunLintPlugin =
  lintTime :: int
  set' :: bool
  timers :: "int list"
  invoked :: "int list"

definition setTimeout :: "int \<Rightarrow> int \<Rightarrow> RunLintPlugin \<Rightarrow> RunLintPlugin" where
  "setTimeout now delay p = p\<lparr>timers := timers p @ [now + delay]\<rparr>"


text \<open>\<open>update(update)\<close> of the plugin (lines 192-200); \<open>changed\<close> is \<open>update.docChanged\<close>.\<close>

definition plugin_update :: "int \<Rightarrow> bool \<Rightarrow> RunLintPlugin \<Rightarrow> RunLintPlugin" where
  "plugin_update now changed p =
     (if changed then
        (let p1 = p\<lparr>lintTime := now + LintDelay\<rparr>
         in if \<not> set' p1 then setTimeout now LintDelay (p1\<lparr>set' := True\<rparr>) else p1)
      else p)"

text \<open>
  \<open>run()\<close> (lines 181-190). The dispatch of the source's diagnostics updates the
  view, which calls the plugin's \<open>update\<close> with a transaction that changes no
  document.
\<close>

definition run :: "int \<Rightarrow> RunLintPlugin \<Rightarrow> RunLintPlugin" where
  "run now p =
     (if now < lintTime p - 10 then setTimeout now (lintTime p - now) p
      else plugin_update now False (p\<lparr>set' := False, invoked := invoked p @ [now]\<rparr>))"

text \<open>
  The events of a session: the document is edited at a time, some other update reaches
  the plugin, or a pending timer fires, at its due time or later, and calls \<open>run\<close>.
\<close>

inductive step :: "RunLintPlugin \<Rightarrow> RunLintPlugin \<Rightarrow> bool" where
  edit: "step p (plugin_update now True p)"
| other: "step p (plugin_update now False p)"
| timeout: "due \<in> set (timers p) \<Longrightarrow> due \<le> now \<Longrightarrow>
            step p (run now (p\<lparr>timers := remove1 due (timers p)\<rparr>))"





subsection \<open>The panel's list of items\<close>

text \<open>
  A \<open>PanelItem\<close> is made once and never changed: \<open>item_id\<close> stands for the
  object, its \<open>id\<close> string and its \<open>dom\<close> element, which the source draws at random
  and allocates; the model takes them from a counter, so two items are the same object
  exactly when their \<open>item_id\<close> agree. The \<open>aria-selected\<close> attribute of the
  elements is kept apart, as the set of the items that have it.
\<close>

record PanelItem =
  item_id :: nat
  item_diagnostic :: Diagnostic

record LintPanel =
  items :: "PanelItem list"
  aria_selected :: "nat set"
  activedescendant :: "nat option"
  next_id :: nat

text \<open>The variables the visitor of \<open>LintPanel.update\<close> reads and writes.\<close>

record UpdateLoop =
  loop_items :: "PanelItem list"
  loop_i :: nat
  needsSync :: bool
  newSelectedItem :: "PanelItem option"
  loop_aria :: "nat set"
  loop_next_id :: nat

text \<open>The search loop of lines 304-305: the first index from \<open>j\<close> on that holds \<open>d\<close>.\<close>

function find_item :: "PanelItem list \<Rightarrow> Diagnostic \<Rightarrow> nat \<Rightarrow> nat option" where
  "find_item its d j =
     (if j < length its
      then (if item_diagnostic (its ! j) = d then Some j else find_item its d (j + 1))
      else None)"
  by pat_completeness auto
termination
  by (relation "measure (\<lambda>(its, d, j). length its - j)") auto

text \<open>\<open>items.splice(at, 0, item)\<close> and \<open>items.splice(at, n)\<close>.\<close>

definition splice_insert :: "nat \<Rightarrow> 'a \<Rightarrow> 'a list \<Rightarrow> 'a list" where
  "splice_insert at x xs = take at xs @ [x] @ drop at xs"

definition splice_remove :: "nat \<Rightarrow> nat \<Rightarrow> 'a list \<Rightarrow> 'a list" where
  "splice_remove at n xs = take at xs @ drop (at + n) xs"

text \<open>\<open>while (i < this.items.length) this.items.pop()\<close>.\<close>

function pop_while :: "nat \<Rightarrow> 'a list \<Rightarrow> 'a list" where
  "pop_while k xs = (if k < length xs then pop_while k (butlast xs) else xs)"
  by pat_completeness auto
termination
  by (relation "measure (\<lambda>(k, xs). length xs)") auto

text \<open>The attribute changes of lines 314-321 on the element of \<open>item\<close>.\<close>

definition mark_selected ::
  "SelectedDiagnostic option \<Rightarrow> PanelItem \<Rightarrow> UpdateLoop \<Rightarrow> UpdateLoop" where
  "mark_selected sel item l =
     (if (case sel of None \<Rightarrow> False | Some s \<Rightarrow> item_diagnostic item = sel_diagnostic s)
      then (if item_id item \<notin> loop_aria l
            then l\<lparr>loop_aria := insert (item_id item) (loop_aria l), newSelectedItem := Some item\<rparr>
            else l)
      else if item_id item \<in> loop_aria l
           then l\<lparr>loop_aria := loop_aria l - {item_id item}\<rparr>
           else l)"

text \<open>The visitor of lines 302-323. It returns nothing, so the iteration goes on.\<close>

definition update_visit ::
  "SelectedDiagnostic option \<Rightarrow> int \<Rightarrow> int \<Rightarrow> Decoration \<Rightarrow> UpdateLoop \<Rightarrow> UpdateLoop \<times> bool" where
  "update_visit sel start end deco l =
     (let d = spec_diagnostic deco;
          (item, l1) =
            (case find_item (loop_items l) d (loop_i l) of
               None \<Rightarrow>
                 (let item = \<lparr>item_id = loop_next_id l, item_diagnostic = d\<rparr>
                  in (item, l\<lparr>loop_items := splice_insert (loop_i l) item (loop_items l),
                              needsSync := True,
                              loop_next_id := loop_next_id l + 1\<rparr>))
             | Some found \<Rightarrow>
                 (loop_items l ! found,
                  if loop_i l < found
                  then l\<lparr>loop_items := splice_remove (loop_i l) (found - loop_i l) (loop_items l),
                         needsSync := True\<rparr>
                  else l));
          l2 = mark_selected sel item l1
      in (l2\<lparr>loop_i := loop_i l2 + 1\<rparr>, True))"

text \<open>
  \<open>LintPanel.update\<close> (lines 299-339), up to the call of \<open>sync\<close>: the result is
  the panel and \<open>needsSync\<close>. Reading the lint field throws when it is not attached
  (\<open>None\<close>).
\<close>

definition LintPanel_update :: "LintPanel \<Rightarrow> EditorState \<Rightarrow> (LintPanel \<times> bool) option" where
  "LintPanel_update pnl st =
     (case field st of
        None \<Rightarrow> None
      | Some fld \<Rightarrow>
          (let l = between (diagnostics fld) 0 (doc_length st) (update_visit (selected fld))
                     \<lparr>loop_items = items pnl, loop_i = 0, needsSync = False, newSelectedItem = None,
                      loop_aria = aria_selected pnl, loop_next_id = next_id pnl\<rparr>;
               items' = pop_while (loop_i l) (loop_items l)
           in Some (\<lparr>items = items',
                     aria_selected = loop_aria l,
                     activedescendant =
                       (case newSelectedItem l of
                          Some item \<Rightarrow> Some (item_id item)
                        | None \<Rightarrow> if items' = [] then None else activedescendant pnl),
                     next_id = loop_next_id l\<rparr>,
                    needsSync l)))"

text \<open>
  \<open>moveSelection\<close> (lines 364-374). Reading \<open>this.items[selectedIndex].diagnostic\<close>
  past the end of the list throws, as reading an absent lint field does (\<open>None\<close>);
  otherwise the result is the view, changed when a transaction was dispatched.
\<close>

definition moveSelection :: "LintPanel \<Rightarrow> EditorView \<Rightarrow> nat \<Rightarrow> EditorView option" where
  "moveSelection pnl view selectedIndex =
     (if items pnl = [] then Some view
      else (case field (state view) of
              None \<Rightarrow> None
            | Some fld \<Rightarrow>
                if length (items pnl) \<le> selectedIndex then None
                else (case findDiagnostic (diagnostics fld)
                             (Some (item_diagnostic (items pnl ! selectedIndex))) 0 of
                        None \<Rightarrow> Some view
                      | Some selection \<Rightarrow>
                          Some (dispatch view
                                  (annotate_setState
                                     \<lparr>diagnostics = diagnostics fld, panel = panel fld,
                                      selected = Some selection\<rparr> state_t)))))"

section \<open>Notions used to state the properties\<close>

text \<open>The selection that points at a range, as \<open>findDiagnostic\<close> builds it.\<close>

definition selected_of_range :: "RangeDeco \<Rightarrow> SelectedDiagnostic" where
  "selected_of_range r =
     SelectedDiagnostic (range_from r) (range_to r) (spec_diagnostic (range_value r))"

text \<open>A range holds the diagnostic asked for; every range does when none is asked for.\<close>

definition wanted :: "Diagnostic option \<Rightarrow> RangeDeco \<Rightarrow> bool" where
  "wanted diagnostic r =
     (case diagnostic of None \<Rightarrow> True | Some d \<Rightarrow> spec_diagnostic (range_value r) = d)"

text \<open>A diagnostic object at address \<open>r\<close> with the offsets \<open>f\<close> and \<open>e\<close>, for the examples.\<close>

definition diag :: "nat \<Rightarrow> int \<Rightarrow> int \<Rightarrow> Diagnostic" where
  "diag r f e = \<lparr>ref = r, from = f, to = e, severity = Warning, source = None,
                 message = ''redeclared x'', actions = None\<rparr>"

text \<open>
  Modelled from the spec: the change set of a transaction that inserts \<open>n\<close>
  characters at the position \<open>at\<close> (change sets are the state package's). A
  position before \<open>at\<close> stays, a position after it moves by \<open>n\<close>, and \<open>at\<close>
  itself moves when the bias associates it with the following text (\<open>bias > 0\<close>). A
  set is mapped by passing "each anchor's from/to ... through the change's bias-aware
  position mapping", forward-biased.
\<close>

definition insertion_mapPos :: "int \<Rightarrow> int \<Rightarrow> int \<Rightarrow> int \<Rightarrow> int" where
  "insertion_mapPos at n pos bias = (if pos < at \<or> (pos = at \<and> bias \<le> 0) then pos else pos + n)"

definition insertion :: "int \<Rightarrow> int \<Rightarrow> ChangeSet" where
  "insertion at n =
     \<lparr>mapPos = insertion_mapPos at n,
      mapSet = map (\<lambda>r. RangeDeco (insertion_mapPos at n (range_from r) 1)
                                (insertion_mapPos at n (range_to r) 1) (range_value r))\<rparr>"

text \<open>
  The selection points at a range that the set holds: some range of \<open>diagnostics\<close>
  has the selection's \<open>from\<close>, \<open>to\<close> and diagnostic.
\<close>

definition selection_live :: "LintState \<Rightarrow> bool" where
  "selection_live v =
     (case selected v of
        None \<Rightarrow> True
      | Some sel \<Rightarrow> \<exists>r\<in>set (diagnostics v). selected_of_range r = sel)"

definition field_live :: "EditorView \<Rightarrow> bool" where
  "field_live view = (case field (state view) of None \<Rightarrow> True | Some v \<Rightarrow> selection_live v)"

text \<open>
  The views a session can reach. The lint field starts as \<open>create\<close> gives it. The
  \<open>setState\<close> annotation is private to lint.ts (it is not exported), and only
  \<open>openLintPanel\<close>, \<open>closeLintPanel\<close> and \<open>moveSelection\<close> dispatch a transaction
  that carries it; every other transaction (the plugin's \<open>setDiagnostics\<close>, an edit
  of the document, with any changes and any new document length) carries none.
\<close>

inductive reachable :: "EditorView \<Rightarrow> bool" where
  attached: "field (state view) = Some create \<Longrightarrow> reachable view"
| transaction: "reachable view \<Longrightarrow> setState tr = None \<Longrightarrow> reachable (dispatch_doc view tr n)"
| open_panel: "reachable view \<Longrightarrow> openLintPanel view = Some (b, view') \<Longrightarrow> reachable view'"
| close_panel: "reachable view \<Longrightarrow> closeLintPanel view = (b, view') \<Longrightarrow> reachable view'"
| move_selection: "reachable view \<Longrightarrow> moveSelection pnl view k = Some view' \<Longrightarrow> reachable view'"


text \<open>The diagnostics \<open>between\<close> visits in a set, in the order it visits them.\<close>

definition visited :: "DecorationSet \<Rightarrow> int \<Rightarrow> int \<Rightarrow> Diagnostic list" where
  "visited ds qfrom qto = map (\<lambda>r. spec_diagnostic (range_value r)) (filter (touches qfrom qto) ds)"

text \<open>
  The reconciler in the spec's words, to compare \<open>LintPanel.update\<close> with: a
  single pass over the current diagnostics with the tail of the previous items that is
  left. For each diagnostic, "search forward in the remaining previous-list tail for a
  matching identity": the items skipped on the way are dropped and the found item is
  kept; "if not found, a new item is created and inserted at the current cursor", and
  the tail stays. "After the walk, any remaining previous-list tail items are
  removed." \<open>n\<close> is the identity the next new item gets.
\<close>

fun reconcile_spec :: "nat \<Rightarrow> Diagnostic list \<Rightarrow> PanelItem list \<Rightarrow> PanelItem list" where
  "reconcile_spec n [] tail = []"
| "reconcile_spec n (d # ds) tail =
     (case dropWhile (\<lambda>item. item_diagnostic item \<noteq> d) tail of
        [] \<Rightarrow> \<lparr>item_id = n, item_diagnostic = d\<rparr> # reconcile_spec (n + 1) ds tail
      | found # rest \<Rightarrow> found # reconcile_spec n ds rest)"

section \<open>Properties\<close>

subsection \<open>Decoration sets and findDiagnostic\<close>

lemma between_find:
  "between ds a b (findDiagnostic_visit dopt) None =
     map_option selected_of_range (find (\<lambda>r. touches a b r \<and> wanted dopt r) ds)"
proof (induction ds)
  case Nil
  show ?case by simp
next
  case (Cons r rs)
  show ?case
  proof (cases "touches a b r")
    case False
    with Cons show ?thesis by simp
  next
    case True
    show ?thesis
    proof (cases "wanted dopt r")
      case True
      with \<open>touches a b r\<close> show ?thesis
        by (simp add: findDiagnostic_visit_def selected_of_range_def wanted_def split: option.splits)
    next
      case False
      then obtain d where d: "dopt = Some d" "spec_diagnostic (range_value r) \<noteq> d"
        by (auto simp: wanted_def split: option.splits)
      have "between (r # rs) a b (findDiagnostic_visit dopt) None =
            between rs a b (findDiagnostic_visit dopt) None"
        using \<open>touches a b r\<close> d by (simp add: findDiagnostic_visit_def)
      with Cons False show ?thesis by simp
    qed
  qed
qed

lemma fold_max_ge: "m \<le> fold (\<lambda>r m. max m (range_to r)) ds (m::int)"
proof (induction ds arbitrary: m)
  case Nil
  show ?case by simp
next
  case (Cons x xs)
  have "m \<le> max m (range_to x)" by simp
  also have "\<dots> \<le> fold (\<lambda>r m. max m (range_to r)) xs (max m (range_to x))" by (rule Cons.IH)
  finally show ?case by simp
qed

lemma fold_max_bound: "r \<in> set ds \<Longrightarrow> range_to r \<le> fold (\<lambda>r m. max m (range_to r)) ds (m::int)"
proof (induction ds arbitrary: m)
  case Nil then show ?case by simp
next
  case (Cons x xs)
  show ?case
  proof (cases "r = x")
    case True
    have "range_to x \<le> max m (range_to x)" by simp
    also have "\<dots> \<le> fold (\<lambda>r m. max m (range_to r)) xs (max m (range_to x))" by (rule fold_max_ge)
    finally show ?thesis using True by simp
  next
    case False
    with Cons show ?thesis by simp
  qed
qed

lemma set_length_bound: "r \<in> set ds \<Longrightarrow> range_to r \<le> set_length ds"
  unfolding set_length_def by (rule fold_max_bound)

lemma set_length_nonneg: "0 \<le> set_length ds"
  unfolding set_length_def by (rule fold_max_ge)

text \<open>
  Among the ranges of a set (each with \<open>from \<le> to\<close>), the query from a position to
  the set's length visits those that end at the position or after it.
\<close>

lemma touches_to_end:
  "r \<in> set ds \<Longrightarrow> range_from r \<le> range_to r \<Longrightarrow>
   touches pos (set_length ds) r = (pos \<le> range_to r)"
  using set_length_bound[of r ds] by (auto simp: touches_def)

lemma diagnostic_range_ordered: "range_from (diagnostic_range d) \<le> range_to (diagnostic_range d)"
  by (simp add: diagnostic_range_def Decoration_mark_def Decoration_widget_def)

lemma diagnostic_range_diag: "spec_diagnostic (range_value (diagnostic_range d)) = d"
  by (simp add: diagnostic_range_def Decoration_mark_def Decoration_widget_def)

lemma set_Decoration_set: "set (Decoration_set rs) = set rs"
  by (simp add: Decoration_set_def)

lemma mset_Decoration_set: "mset (Decoration_set rs) = mset rs"
  by (simp add: Decoration_set_def)

lemma sorted_Decoration_set: "sorted (map range_key (Decoration_set rs))"
  by (simp add: Decoration_set_def)

lemma findDiagnostic_find:
  "findDiagnostic ds dopt after =
     map_option selected_of_range
       (find (\<lambda>r. touches after (set_length ds) r \<and> wanted dopt r) ds)"
  by (simp add: findDiagnostic_def between_find)


lemma find_all_first: "\<forall>r\<in>set ds. P r \<Longrightarrow> find P ds = (case ds of [] \<Rightarrow> None | r # _ \<Rightarrow> Some r)"
  by (cases ds) auto

lemma built_touches:
  assumes "r \<in> set (Decoration_set (map diagnostic_range D))" and "\<forall>d\<in>set D. 0 \<le> from d"
  shows "touches 0 (set_length (Decoration_set (map diagnostic_range D))) r"
proof -
  from assms(1) obtain d where d: "d \<in> set D" "r = diagnostic_range d"
    by (auto simp: set_Decoration_set)
  have "range_from r \<le> range_to r" using d by (simp add: diagnostic_range_ordered)
  moreover have "range_to r \<le> set_length (Decoration_set (map diagnostic_range D))"
    using assms(1) by (rule set_length_bound)
  moreover have "0 \<le> range_from r"
    using d assms(2) by (simp add: diagnostic_range_def Decoration_mark_def Decoration_widget_def)
  ultimately show ?thesis by (simp add: touches_def)
qed

lemma update_setDiagnostics:
  "setDiagnostics tr = Some D \<Longrightarrow>
   update v tr st = Constructed \<lparr>diagnostics = Decoration_set (map diagnostic_range D), panel = panel v,
      selected = findDiagnostic (Decoration_set (map diagnostic_range D)) None 0\<rparr>"
  by (simp add: update_def Let_def)

lemma new_value_setDiagnostics:
  "setDiagnostics tr = Some D \<Longrightarrow>
   new_value v tr st = \<lparr>diagnostics = Decoration_set (map diagnostic_range D), panel = panel v,
      selected = findDiagnostic (Decoration_set (map diagnostic_range D)) None 0\<rparr>"
  by (simp add: new_value_def update_setDiagnostics)

lemma update_no_transition:
  "setDiagnostics tr = None \<Longrightarrow> setState tr = None \<Longrightarrow> \<not> docChanged tr \<Longrightarrow> update v tr st = Prior"
  by (simp add: update_def)

subsection \<open>Replacing the diagnostics\<close>

lemma built_touches_iff:
  assumes "r \<in> set (Decoration_set (map diagnostic_range D))"
  shows "touches 0 (set_length (Decoration_set (map diagnostic_range D))) r = (0 \<le> range_to r)"
proof -
  from assms obtain d where "r = diagnostic_range d"
    by (auto simp: set_Decoration_set)
  then have "range_from r \<le> range_to r"
    by (simp add: diagnostic_range_ordered)
  with assms show ?thesis by (rule touches_to_end)
qed

lemma findDiagnostic_built:
  "findDiagnostic (Decoration_set (map diagnostic_range D)) None 0 =
     map_option selected_of_range
       (find (\<lambda>r. 0 \<le> range_to r) (Decoration_set (map diagnostic_range D)))"
proof -
  let ?ds = "Decoration_set (map diagnostic_range D)"
  have "find (\<lambda>r. touches 0 (set_length ?ds) r \<and> wanted None r) ?ds = find (\<lambda>r. 0 \<le> range_to r) ?ds"
    by (rule find_cong) (simp_all add: built_touches_iff wanted_def)
  then show ?thesis by (simp add: findDiagnostic_find)
qed

text \<open>
  C1 as the spec states it fails for a diagnostic left of position 0:
  \<open>findDiagnostic\<close> queries the new set from 0, and a range that ends before 0 is
  not visited. The batch with the one diagnostic \<open>-5..-5\<close> gives a set of one range
  and no selection; with the diagnostic \<open>3..4\<close> added, the selection is \<open>3..4\<close>,
  the second range of the set.
\<close>

theorem C1_negative_offset_not_selected:
  "diagnostics (new_value create (annotate_setDiagnostics [diag 1 (- 5) (- 5)] state_t)
                  \<lparr>doc_length = 20, field = Some create\<rparr>)
     = [RangeDeco (- 5) (- 5) (WidgetDecoration (diag 1 (- 5) (- 5)) (diag 1 (- 5) (- 5)))] \<and>
   selected (new_value create (annotate_setDiagnostics [diag 1 (- 5) (- 5)] state_t)
               \<lparr>doc_length = 20, field = Some create\<rparr>) = None \<and>
   diagnostics (new_value create (annotate_setDiagnostics [diag 1 (- 5) (- 5), diag 2 3 4] state_t)
                  \<lparr>doc_length = 20, field = Some create\<rparr>)
     = [RangeDeco (- 5) (- 5) (WidgetDecoration (diag 1 (- 5) (- 5)) (diag 1 (- 5) (- 5))),
        RangeDeco 3 4 (MarkDecoration ''lintRange.warning'' (diag 2 3 4))] \<and>
   selected (new_value create (annotate_setDiagnostics [diag 1 (- 5) (- 5), diag 2 3 4] state_t)
               \<lparr>doc_length = 20, field = Some create\<rparr>)
     = Some (SelectedDiagnostic 3 4 (diag 2 3 4))"
proof -
  have h1: "setDiagnostics (annotate_setDiagnostics [diag 1 (- 5) (- 5)] state_t)
              = Some [diag 1 (- 5) (- 5)]"
    and h2: "setDiagnostics (annotate_setDiagnostics [diag 1 (- 5) (- 5), diag 2 3 4] state_t)
              = Some [diag 1 (- 5) (- 5), diag 2 3 4]"
    by (simp_all add: annotate_setDiagnostics_def)
  show ?thesis
    unfolding new_value_setDiagnostics[OF h1] new_value_setDiagnostics[OF h2]
    by (simp add: Decoration_set_def diagnostic_range_def Decoration_mark_def Decoration_widget_def
          range_key_def diag_def findDiagnostic_def set_length_def touches_def findDiagnostic_visit_def)
qed

text \<open>
  C1, amended. A transaction that carries a \<open>setDiagnostics\<close> annotation with the
  list \<open>D\<close> gives a state whose \<open>panel\<close> field is the prior one and whose
  \<open>selected\<close> field, whatever was selected before, points at the first range, in
  the ascending order of \<open>(from, to)\<close> of the set built from \<open>D\<close>, that ends at
  position 0 or later, and is absent when there is none. When every diagnostic of
  \<open>D\<close> has \<open>0 \<le> from\<close>, that is the first range of the set, and the selection
  is absent exactly when \<open>D\<close> is empty.
\<close>

theorem C1_replace_selects_first_from_zero:
  assumes "setDiagnostics tr = Some D"
  shows "panel (new_value v tr st) = panel v \<and>
         sorted (map range_key (diagnostics (new_value v tr st))) \<and>
         selected (new_value v tr st) =
           (case find (\<lambda>r. 0 \<le> range_to r) (diagnostics (new_value v tr st)) of
              None \<Rightarrow> None
            | Some r \<Rightarrow> Some (selected_of_range r)) \<and>
         ((\<forall>d\<in>set D. 0 \<le> from d) \<longrightarrow>
            selected (new_value v tr st) =
              (case diagnostics (new_value v tr st) of
                 [] \<Rightarrow> None
               | first # _ \<Rightarrow> Some (selected_of_range first)) \<and>
            (selected (new_value v tr st) = None \<longleftrightarrow> D = []))"
proof -
  let ?ds = "Decoration_set (map diagnostic_range D)"
  have nv: "new_value v tr st = \<lparr>diagnostics = ?ds, panel = panel v, selected = findDiagnostic ?ds None 0\<rparr>"
    using assms by (rule new_value_setDiagnostics)
  have reached: "findDiagnostic ?ds None 0 =
      (case find (\<lambda>r. 0 \<le> range_to r) ?ds of None \<Rightarrow> None | Some r \<Rightarrow> Some (selected_of_range r))"
    by (simp add: findDiagnostic_built split: option.splits)
  have first: "findDiagnostic ?ds None 0 = (case ?ds of [] \<Rightarrow> None | r # _ \<Rightarrow> Some (selected_of_range r)) \<and>
               (findDiagnostic ?ds None 0 = None \<longleftrightarrow> D = [])"
    if wf: "\<forall>d\<in>set D. 0 \<le> from d"
  proof -
    have all: "\<forall>r\<in>set ?ds. touches 0 (set_length ?ds) r \<and> wanted None r"
      using built_touches[OF _ wf] by (simp add: wanted_def)
    have sel: "findDiagnostic ?ds None 0 = (case ?ds of [] \<Rightarrow> None | r # _ \<Rightarrow> Some (selected_of_range r))"
      unfolding findDiagnostic_find find_all_first[OF all] by (simp split: list.splits)
    have empty: "(?ds = []) = (D = [])"
      using mset_Decoration_set[of "map diagnostic_range D"]
      by (metis map_is_Nil_conv mset_zero_iff)
    from sel empty show ?thesis by (simp split: list.splits)
  qed
  have srt: "sorted (map range_key ?ds)" by (rule sorted_Decoration_set)
  have flds: "panel (new_value v tr st) = panel v" "diagnostics (new_value v tr st) = ?ds"
    "selected (new_value v tr st) = findDiagnostic ?ds None 0"
    by (simp_all add: nv)
  from reached first srt show ?thesis
    unfolding flds by blast
qed

theorem C1_replace_selects_first_from_zero_witness:
  "selected (new_value create (annotate_setDiagnostics [diag 1 5 7, diag 2 3 3] state_t)
               \<lparr>doc_length = 20, field = None\<rparr>)
     = Some (SelectedDiagnostic 3 3 (diag 2 3 3)) \<and>
   panel (new_value create (annotate_setDiagnostics [diag 1 5 7, diag 2 3 3] state_t)
               \<lparr>doc_length = 20, field = None\<rparr>) = None"
proof -
  let ?tr = "annotate_setDiagnostics [diag 1 5 7, diag 2 3 3] state_t"
  let ?st = "\<lparr>doc_length = 20, field = None\<rparr>"
  have h1: "setDiagnostics ?tr = Some [diag 1 5 7, diag 2 3 3]"
    by (simp add: annotate_setDiagnostics_def)
  have h2: "\<forall>d\<in>set [diag 1 5 7, diag 2 3 3]. 0 \<le> from d"
    by (simp add: diag_def)
  have ds: "diagnostics (new_value create ?tr ?st) =
      [diagnostic_range (diag 2 3 3), diagnostic_range (diag 1 5 7)]"
    unfolding new_value_setDiagnostics[OF h1]
    by (simp add: Decoration_set_def diagnostic_range_def
          Decoration_mark_def Decoration_widget_def range_key_def diag_def)
  from C1_replace_selects_first_from_zero[OF h1, of create ?st] h2
  have "panel (new_value create ?tr ?st) = panel create"
    and "selected (new_value create ?tr ?st) =
           (case diagnostics (new_value create ?tr ?st) of
              [] \<Rightarrow> None
            | first # _ \<Rightarrow> Some (selected_of_range first))"
    by blast+
  then show ?thesis
    unfolding ds
    by (simp add: selected_of_range_def diagnostic_range_def Decoration_widget_def diag_def create_def)
qed

text \<open>
  C5. The set built from the diagnostics \<open>D\<close> of a \<open>setDiagnostics\<close> annotation holds,
  for every diagnostic with \<open>from < to\<close>, a mark over \<open>from..to\<close>, and for every one
  with \<open>from = to\<close>, a widget at \<open>from\<close>; the decoration refers to the diagnostic
  it was built from. The set holds nothing else: each of its ranges is the range of a
  diagnostic of \<open>D\<close>, and it has as many ranges as \<open>D\<close> has diagnostics.
\<close>

theorem C5_anchor_construction:
  assumes "setDiagnostics tr = Some D" and "d \<in> set D"
  shows "(from d < to d \<longrightarrow>
            RangeDeco (from d) (to d)
              (MarkDecoration (''lintRange.'' @ severity_name (severity d)) d)
              \<in> set (diagnostics (new_value v tr st))) \<and>
         (from d = to d \<longrightarrow>
            RangeDeco (from d) (from d) (WidgetDecoration d d)
              \<in> set (diagnostics (new_value v tr st))) \<and>
         (\<forall>r\<in>set (diagnostics (new_value v tr st)).
            \<exists>d'\<in>set D. r = diagnostic_range d' \<and> spec_diagnostic (range_value r) = d') \<and>
         length (diagnostics (new_value v tr st)) = length D"
proof -
  have ds: "diagnostics (new_value v tr st) = Decoration_set (map diagnostic_range D)"
    using assms(1) by (simp add: new_value_setDiagnostics)
  have member: "diagnostic_range d \<in> set (diagnostics (new_value v tr st))"
    using assms(2) by (simp add: ds set_Decoration_set)
  have mark: "from d < to d \<Longrightarrow> diagnostic_range d =
      RangeDeco (from d) (to d)
        (MarkDecoration (''lintRange.'' @ severity_name (severity d)) d)"
    by (simp add: diagnostic_range_def Decoration_mark_def)
  have point: "from d = to d \<Longrightarrow> diagnostic_range d = RangeDeco (from d) (from d) (WidgetDecoration d d)"
    by (simp add: diagnostic_range_def Decoration_widget_def)
  have only: "\<forall>r\<in>set (diagnostics (new_value v tr st)).
      \<exists>d'\<in>set D. r = diagnostic_range d' \<and> spec_diagnostic (range_value r) = d'"
    by (auto simp: ds set_Decoration_set diagnostic_range_diag)
  have len: "length (diagnostics (new_value v tr st)) = length D"
    by (simp add: ds Decoration_set_def)
  from member mark point only len show ?thesis by metis
qed

theorem C5_anchor_construction_witness:
  "RangeDeco 5 7 (MarkDecoration ''lintRange.warning'' (diag 1 5 7))
     \<in> set (diagnostics (new_value create (annotate_setDiagnostics [diag 1 5 7, diag 2 3 3] state_t)
                            \<lparr>doc_length = 20, field = None\<rparr>))"
proof -
  let ?tr = "annotate_setDiagnostics [diag 1 5 7, diag 2 3 3] state_t"
  have h1: "setDiagnostics ?tr = Some [diag 1 5 7, diag 2 3 3]"
    by (simp add: annotate_setDiagnostics_def)
  have h2: "diag 1 5 7 \<in> set [diag 1 5 7, diag 2 3 3]"
    by simp
  have "from (diag 1 5 7) < to (diag 1 5 7)"
    by (simp add: diag_def)
  with C5_anchor_construction[OF h1 h2, of create "\<lparr>doc_length = 20, field = None\<rparr>"]
  show ?thesis by (simp add: diag_def)
qed

text \<open>
  C7 as the spec states it fails: the reducer does not clamp. With a document of
  length 10, the diagnostic \<open>5..1000\<close> becomes the mark \<open>5..1000\<close>.
\<close>

theorem C7_out_of_range_kept:
  "diagnostics (new_value create (annotate_setDiagnostics [diag 1 5 1000] state_t)
                  \<lparr>doc_length = 10, field = Some create\<rparr>)
     = [RangeDeco 5 1000 (MarkDecoration ''lintRange.warning'' (diag 1 5 1000))] \<and>
   \<not> 1000 \<le> doc_length \<lparr>doc_length = 10, field = Some create\<rparr>"
proof -
  have h1: "setDiagnostics (annotate_setDiagnostics [diag 1 5 1000] state_t) = Some [diag 1 5 1000]"
    by (simp add: annotate_setDiagnostics_def)
  show ?thesis
    unfolding new_value_setDiagnostics[OF h1]
    by (simp add: Decoration_set_def diagnostic_range_def Decoration_mark_def diag_def)
qed

text \<open>
  C7, amended. A batch with malformed diagnostics is installed whole and as given:
  every diagnostic of the batch gets one range; a diagnostic with \<open>from < to\<close> gets
  the mark \<open>from..to\<close>, whatever the document's length, and any other one (so also
  one with \<open>from > to\<close>) gets a widget at \<open>from\<close>. No range of the set has
  \<open>from > to\<close>; offsets outside the document are kept as they are.
\<close>

theorem C7_batch_installed_unclamped:
  assumes "setDiagnostics tr = Some D"
  shows "mset (diagnostics (new_value v tr st)) = mset (map diagnostic_range D) \<and>
         (\<forall>r\<in>set (diagnostics (new_value v tr st)). range_from r \<le> range_to r) \<and>
         (\<forall>d\<in>set D. range_from (diagnostic_range d) = from d \<and>
                     range_to (diagnostic_range d) = (if from d < to d then to d else from d))"
proof -
  have ds: "diagnostics (new_value v tr st) = Decoration_set (map diagnostic_range D)"
    using assms by (simp add: new_value_setDiagnostics)
  have "\<forall>r\<in>set (diagnostics (new_value v tr st)). range_from r \<le> range_to r"
    by (auto simp: ds set_Decoration_set diagnostic_range_ordered)
  moreover have "\<forall>d\<in>set D. range_from (diagnostic_range d) = from d \<and>
                     range_to (diagnostic_range d) = (if from d < to d then to d else from d)"
    by (simp add: diagnostic_range_def Decoration_mark_def Decoration_widget_def)
  ultimately show ?thesis
    by (simp add: ds mset_Decoration_set)
qed

theorem C7_batch_installed_unclamped_witness:
  "mset (diagnostics (new_value create (annotate_setDiagnostics [diag 1 9 4, diag 2 5 1000] state_t)
                        \<lparr>doc_length = 10, field = Some create\<rparr>))
     = mset [RangeDeco 9 9 (WidgetDecoration (diag 1 9 4) (diag 1 9 4)),
             RangeDeco 5 1000 (MarkDecoration ''lintRange.warning'' (diag 2 5 1000))]"
proof -
  have h1: "setDiagnostics (annotate_setDiagnostics [diag 1 9 4, diag 2 5 1000] state_t)
              = Some [diag 1 9 4, diag 2 5 1000]"
    by (simp add: annotate_setDiagnostics_def)
  have "map diagnostic_range [diag 1 9 4, diag 2 5 1000] =
          [RangeDeco 9 9 (WidgetDecoration (diag 1 9 4) (diag 1 9 4)),
           RangeDeco 5 1000 (MarkDecoration ''lintRange.warning'' (diag 2 5 1000))]"
    by (simp add: diagnostic_range_def Decoration_mark_def Decoration_widget_def diag_def)
  with C7_batch_installed_unclamped[OF h1, of create "\<lparr>doc_length = 10, field = Some create\<rparr>"]
  show ?thesis by simp
qed

text \<open>
  C10. A transaction that carries a \<open>setDiagnostics\<close> annotation and also changes the
  document is handled by the replace branch alone: the reducer returns what it returns
  for the annotation alone, on a transaction with no change and no \<open>setState\<close>; the
  result is the same for every transaction with these diagnostics and every prior
  state with the same panel, whatever its ranges and selection were, so neither the
  changes nor the \<open>setState\<close> annotation nor the prior ranges enter it; and the
  ranges are those of the diagnostics as given.
\<close>

theorem C10_replace_ignores_changes:
  assumes "setDiagnostics tr = Some D" and "docChanged tr"
  shows "update v tr st = update v (annotate_setDiagnostics D state_t) st \<and>
         (\<forall>v' tr' st'. setDiagnostics tr' = Some D \<and> panel v' = panel v \<longrightarrow>
              update v' tr' st' = update v tr st) \<and>
         mset (diagnostics (new_value v tr st)) = mset (map diagnostic_range D)"
  using assms
  by (simp add: update_setDiagnostics new_value_setDiagnostics annotate_setDiagnostics_def
        mset_Decoration_set)

theorem C10_replace_ignores_changes_witness:
  "update \<lparr>diagnostics = [diagnostic_range (diag 9 1 2)], panel = None, selected = None\<rparr>
          \<lparr>setDiagnostics = Some [diag 1 5 7], setState = Some create, docChanged = True,
           changes = insertion 0 3\<rparr>
          \<lparr>doc_length = 23, field = None\<rparr>
     = Constructed \<lparr>diagnostics = [RangeDeco 5 7 (MarkDecoration ''lintRange.warning'' (diag 1 5 7))],
                    panel = None,
                    selected = Some (SelectedDiagnostic 5 7 (diag 1 5 7))\<rparr>"
proof -
  let ?v = "\<lparr>diagnostics = [diagnostic_range (diag 9 1 2)], panel = None, selected = None\<rparr>"
  let ?tr = "\<lparr>setDiagnostics = Some [diag 1 5 7], setState = Some create, docChanged = True,
              changes = insertion 0 3\<rparr>"
  have h1: "setDiagnostics ?tr = Some [diag 1 5 7]" and h2: "docChanged ?tr"
    by simp_all
  have h3: "setDiagnostics (annotate_setDiagnostics [diag 1 5 7] state_t) = Some [diag 1 5 7]"
    by (simp add: annotate_setDiagnostics_def)
  have "update ?v (annotate_setDiagnostics [diag 1 5 7] state_t) \<lparr>doc_length = 23, field = None\<rparr>
      = Constructed \<lparr>diagnostics = [RangeDeco 5 7 (MarkDecoration ''lintRange.warning'' (diag 1 5 7))],
                    panel = None,
                    selected = Some (SelectedDiagnostic 5 7 (diag 1 5 7))\<rparr>"
    unfolding update_setDiagnostics[OF h3]
    by (simp add: Decoration_set_def diagnostic_range_def Decoration_mark_def diag_def
          findDiagnostic_def set_length_def touches_def findDiagnostic_visit_def)
  with C10_replace_ignores_changes[OF h1 h2, of ?v "\<lparr>doc_length = 23, field = None\<rparr>"]
  show ?thesis by simp
qed

subsection \<open>Editing the document\<close>

lemma new_value_docChanged:
  assumes "setDiagnostics tr = None" and "setState tr = None" and "docChanged tr"
  shows "new_value v tr st =
     \<lparr>diagnostics = mapSet (changes tr) (diagnostics v), panel = panel v,
      selected =
        (case selected v of
           None \<Rightarrow> None
         | Some sel \<Rightarrow>
             (case findDiagnostic (mapSet (changes tr) (diagnostics v)) (Some (sel_diagnostic sel))
                     (mapPos (changes tr) (sel_from sel) 1) of
                Some found \<Rightarrow> Some found
              | None \<Rightarrow> findDiagnostic (mapSet (changes tr) (diagnostics v)) None
                          (mapPos (changes tr) (sel_from sel) 1)))\<rparr>"
  using assms by (simp add: new_value_def update_def Let_def DecorationSet_map_def split: option.splits)

lemma reselect_find:
  "(case findDiagnostic ds (Some d) pos of
      Some found \<Rightarrow> Some found
    | None \<Rightarrow> findDiagnostic ds None pos) =
   (case find (\<lambda>r. touches pos (set_length ds) r \<and> spec_diagnostic (range_value r) = d) ds of
      Some r \<Rightarrow> Some (selected_of_range r)
    | None \<Rightarrow> (case find (touches pos (set_length ds)) ds of
                 Some r \<Rightarrow> Some (selected_of_range r)
               | None \<Rightarrow> None))"
  by (simp add: findDiagnostic_find wanted_def split: option.splits)

lemma example_edit:
  "new_value \<lparr>diagnostics = [diagnostic_range (diag 1 10 15)], panel = None,
               selected = Some (SelectedDiagnostic 10 15 (diag 1 10 15))\<rparr>
             (state_t\<lparr>docChanged := True, changes := insertion 0 3\<rparr>) st
     = \<lparr>diagnostics = [RangeDeco 13 18 (MarkDecoration ''lintRange.warning'' (diag 1 10 15))],
        panel = None,
        selected = Some (SelectedDiagnostic 13 18 (diag 1 10 15))\<rparr>"
proof -
  let ?tr = "state_t\<lparr>docChanged := True, changes := insertion 0 3\<rparr>"
  have h: "setDiagnostics ?tr = None" "setState ?tr = None" "docChanged ?tr"
    by (simp_all add: state_t_def)
  show ?thesis
    unfolding new_value_docChanged[OF h]
    by (simp add: state_t_def insertion_def insertion_mapPos_def diagnostic_range_def Decoration_mark_def
          diag_def findDiagnostic_def set_length_def touches_def findDiagnostic_visit_def)
qed

text \<open>
  C2. A transaction that changes the document and carries neither annotation, on a
  state with a selection: the ranges are mapped through the changes, the selection's
  \<open>from\<close> is mapped with bias 1, and the new selection is (a) the first mapped
  range at or after that position that holds the selected diagnostic; else (b) the
  first mapped range at or after that position; else (c) absent. A range is at or
  after the position when the query from the position to the end of the set visits
  it (\<open>touches\<close>): it ends at the position or later. In particular, inserting 3
  characters at 0 moves the selection \<open>10..15\<close> to \<open>13..18\<close>, on the same
  diagnostic.
\<close>

theorem C2_selection_follows_edit:
  "(setDiagnostics tr = None \<and> setState tr = None \<and> docChanged tr \<and> selected v = Some sel \<longrightarrow>
      diagnostics (new_value v tr st) = mapSet (changes tr) (diagnostics v) \<and>
      selected (new_value v tr st) =
        (case find (\<lambda>r. touches (mapPos (changes tr) (sel_from sel) 1)
                           (set_length (mapSet (changes tr) (diagnostics v))) r \<and>
                         spec_diagnostic (range_value r) = sel_diagnostic sel)
                (mapSet (changes tr) (diagnostics v)) of
           Some r \<Rightarrow> Some (selected_of_range r)
         | None \<Rightarrow>
             (case find (touches (mapPos (changes tr) (sel_from sel) 1)
                           (set_length (mapSet (changes tr) (diagnostics v))))
                     (mapSet (changes tr) (diagnostics v)) of
                Some r \<Rightarrow> Some (selected_of_range r)
              | None \<Rightarrow> None))) \<and>
   selected (new_value \<lparr>diagnostics = [diagnostic_range (diag 1 10 15)], panel = None,
                         selected = Some (SelectedDiagnostic 10 15 (diag 1 10 15))\<rparr>
                       (state_t\<lparr>docChanged := True, changes := insertion 0 3\<rparr>) st)
     = Some (SelectedDiagnostic 13 18 (diag 1 10 15))"
proof -
  have general: "diagnostics (new_value v tr st) = mapSet (changes tr) (diagnostics v) \<and>
      selected (new_value v tr st) =
        (case find (\<lambda>r. touches (mapPos (changes tr) (sel_from sel) 1)
                           (set_length (mapSet (changes tr) (diagnostics v))) r \<and>
                         spec_diagnostic (range_value r) = sel_diagnostic sel)
                (mapSet (changes tr) (diagnostics v)) of
           Some r \<Rightarrow> Some (selected_of_range r)
         | None \<Rightarrow>
             (case find (touches (mapPos (changes tr) (sel_from sel) 1)
                           (set_length (mapSet (changes tr) (diagnostics v))))
                     (mapSet (changes tr) (diagnostics v)) of
                Some r \<Rightarrow> Some (selected_of_range r)
              | None \<Rightarrow> None))"
    if h: "setDiagnostics tr = None" "setState tr = None" "docChanged tr" and s: "selected v = Some sel"
    unfolding new_value_docChanged[OF h] using s by (simp add: reselect_find)
  have example:
    "selected (new_value \<lparr>diagnostics = [diagnostic_range (diag 1 10 15)], panel = None,
                         selected = Some (SelectedDiagnostic 10 15 (diag 1 10 15))\<rparr>
                       (state_t\<lparr>docChanged := True, changes := insertion 0 3\<rparr>) st)
     = Some (SelectedDiagnostic 13 18 (diag 1 10 15))"
    unfolding example_edit by simp
  from general example show ?thesis by blast
qed

theorem C2_selection_follows_edit_witness:
  "selected (new_value \<lparr>diagnostics = [diagnostic_range (diag 1 10 30), diagnostic_range (diag 2 12 15)],
                         panel = None,
                         selected = Some (SelectedDiagnostic 12 15 (diag 2 12 15))\<rparr>
                       (state_t\<lparr>docChanged := True, changes := insertion 0 3\<rparr>)
                       \<lparr>doc_length = 40, field = None\<rparr>)
     = Some (SelectedDiagnostic 15 18 (diag 2 12 15))"
proof -
  let ?v = "\<lparr>diagnostics = [diagnostic_range (diag 1 10 30), diagnostic_range (diag 2 12 15)],
             panel = None, selected = Some (SelectedDiagnostic 12 15 (diag 2 12 15))\<rparr>"
  let ?tr = "state_t\<lparr>docChanged := True, changes := insertion 0 3\<rparr>"
  have h: "setDiagnostics ?tr = None \<and> setState ?tr = None \<and> docChanged ?tr \<and>
           selected ?v = Some (SelectedDiagnostic 12 15 (diag 2 12 15))"
    by (simp add: state_t_def)
  have m: "mapSet (changes ?tr) (diagnostics ?v) =
      [RangeDeco 13 33 (MarkDecoration ''lintRange.warning'' (diag 1 10 30)),
       RangeDeco 15 18 (MarkDecoration ''lintRange.warning'' (diag 2 12 15))]"
    by (simp add: state_t_def insertion_def insertion_mapPos_def diagnostic_range_def
          Decoration_mark_def diag_def)
  have p: "mapPos (changes ?tr) (sel_from (SelectedDiagnostic 12 15 (diag 2 12 15))) 1 = 15"
    by (simp add: state_t_def insertion_def insertion_mapPos_def)
  from C2_selection_follows_edit[of ?tr ?v "SelectedDiagnostic 12 15 (diag 2 12 15)"
         "\<lparr>doc_length = 40, field = None\<rparr>"] h
  have "selected (new_value ?v ?tr \<lparr>doc_length = 40, field = None\<rparr>) =
        (case find (\<lambda>r. touches (mapPos (changes ?tr) (sel_from (SelectedDiagnostic 12 15 (diag 2 12 15))) 1)
                           (set_length (mapSet (changes ?tr) (diagnostics ?v))) r \<and>
                         spec_diagnostic (range_value r) = sel_diagnostic (SelectedDiagnostic 12 15 (diag 2 12 15)))
                (mapSet (changes ?tr) (diagnostics ?v)) of
           Some r \<Rightarrow> Some (selected_of_range r)
         | None \<Rightarrow>
             (case find (touches (mapPos (changes ?tr) (sel_from (SelectedDiagnostic 12 15 (diag 2 12 15))) 1)
                           (set_length (mapSet (changes ?tr) (diagnostics ?v))))
                     (mapSet (changes ?tr) (diagnostics ?v)) of
                Some r \<Rightarrow> Some (selected_of_range r)
              | None \<Rightarrow> None))"
    by blast
  then show ?thesis
    unfolding m p
    by (simp add: set_length_def touches_def selected_of_range_def diag_def)
qed


subsection \<open>Transactions that change nothing\<close>

text \<open>
  C8. For a transaction with no \<open>setDiagnostics\<close> annotation, no \<open>setState\<close>
  annotation and no document change, the reducer returns the prior state object itself
  (\<open>Prior\<close>), not a state it constructs.
\<close>

theorem C8_no_transition_returns_prior:
  assumes "setDiagnostics tr = None" and "setState tr = None" and "\<not> docChanged tr"
  shows "update v tr st = Prior \<and> new_value v tr st = v"
  using assms by (simp add: update_def new_value_def)

theorem C8_no_transition_returns_prior_witness:
  "update \<lparr>diagnostics = [diagnostic_range (diag 1 5 7)], panel = Some LintPanel_open,
           selected = Some (SelectedDiagnostic 5 7 (diag 1 5 7))\<rparr>
          state_t \<lparr>doc_length = 20, field = None\<rparr> = Prior"
proof -
  have "setDiagnostics state_t = None" "setState state_t = None" "\<not> docChanged state_t"
    by (simp_all add: state_t_def)
  from C8_no_transition_returns_prior[OF this] show ?thesis by simp
qed

text \<open>
  A document change that moves nothing gives an equal state, but one the reducer
  constructs: \<open>Prior\<close> is returned on the last path of the reducer only.
\<close>

lemma equal_copy_is_not_prior:
  "update v (state_t\<lparr>docChanged := True\<rparr>) st \<noteq> Prior"
  by (simp add: update_def state_t_def Let_def split: option.splits)

subsection \<open>The commands\<close>

lemma new_value_setState:
  "setDiagnostics tr = None \<Longrightarrow> setState tr = Some s \<Longrightarrow> new_value v tr st = s"
  by (simp add: new_value_def update_def)

lemma field_dispatch_setState:
  "field (state view) = Some fld \<Longrightarrow>
   field (state (dispatch view (annotate_setState s state_t))) = Some s"
  by (simp add: dispatch_def dispatch_doc_def annotate_setState_def state_t_def new_value_setState)

lemma dispatched_dispatch: "dispatched (dispatch view tr) = dispatched view @ [tr]"
  by (simp add: dispatch_def dispatch_doc_def)

text \<open>
  C9. When the lint field is not attached to the view's state, \<open>openLintPanel\<close> and
  \<open>closeLintPanel\<close> return \<open>false\<close> and leave the view as it is, with no
  transaction dispatched; \<open>closeLintPanel\<close> also does so when the field is attached
  and the panel is not open. Otherwise each returns \<open>true\<close>: \<open>openLintPanel\<close>
  whenever the field is attached, \<open>closeLintPanel\<close> when the panel is open, after
  dispatching one transaction.
\<close>

theorem C9_commands_not_applicable:
  "(field (state view) = None \<longrightarrow>
      openLintPanel view = Some (False, view) \<and> closeLintPanel view = (False, view)) \<and>
   (\<forall>fld. field (state view) = Some fld \<and> panel fld = None \<longrightarrow>
      closeLintPanel view = (False, view)) \<and>
   (\<forall>fld. field (state view) = Some fld \<longrightarrow>
      (\<exists>view'. openLintPanel view = Some (True, view'))) \<and>
   (\<forall>fld. field (state view) = Some fld \<and> panel fld \<noteq> None \<longrightarrow>
      (\<exists>view'. closeLintPanel view = (True, view') \<and>
               length (dispatched view') = length (dispatched view) + 1))"
proof -
  have absent: "openLintPanel view = Some (False, view) \<and> closeLintPanel view = (False, view)"
    if "field (state view) = None"
    using that by (simp add: openLintPanel_def closeLintPanel_def)
  have closed: "closeLintPanel view = (False, view)"
    if "field (state view) = Some fld" "panel fld = None" for fld
    using that by (simp add: closeLintPanel_def)
  have opens: "\<exists>view'. openLintPanel view = Some (True, view')"
    if f: "field (state view) = Some fld" for fld
  proof (cases "panel fld = None")
    case True
    with f field_dispatch_setState[OF f] show ?thesis
      by (simp add: openLintPanel_def Let_def)
  next
    case False
    with f show ?thesis
      by (auto simp: openLintPanel_def Let_def)
  qed
  have closes: "\<exists>view'. closeLintPanel view = (True, view') \<and>
               length (dispatched view') = length (dispatched view) + 1"
    if "field (state view) = Some fld" "panel fld \<noteq> None" for fld
    using that by (simp add: closeLintPanel_def dispatched_dispatch)
  from absent closed opens closes show ?thesis by blast
qed

theorem C9_commands_not_applicable_witness:
  "openLintPanel \<lparr>state = \<lparr>doc_length = 20, field = None\<rparr>, dispatched = [], focused = False\<rparr>
     = Some (False, \<lparr>state = \<lparr>doc_length = 20, field = None\<rparr>, dispatched = [], focused = False\<rparr>) \<and>
   closeLintPanel \<lparr>state = \<lparr>doc_length = 20, field = None\<rparr>, dispatched = [], focused = False\<rparr>
     = (False, \<lparr>state = \<lparr>doc_length = 20, field = None\<rparr>, dispatched = [], focused = False\<rparr>) \<and>
   closeLintPanel \<lparr>state = \<lparr>doc_length = 20, field = Some create\<rparr>, dispatched = [], focused = False\<rparr>
     = (False, \<lparr>state = \<lparr>doc_length = 20, field = Some create\<rparr>, dispatched = [], focused = False\<rparr>)"
proof -
  let ?off = "\<lparr>state = \<lparr>doc_length = 20, field = None\<rparr>, dispatched = [], focused = False\<rparr>"
  let ?on = "\<lparr>state = \<lparr>doc_length = 20, field = Some create\<rparr>, dispatched = [], focused = False\<rparr>"
  have a: "field (state ?off) = None" by simp
  have b: "field (state ?on) = Some create \<and> panel create = None" by (simp add: create_def)
  from C9_commands_not_applicable[of ?off] a
  have 1: "openLintPanel ?off = Some (False, ?off) \<and> closeLintPanel ?off = (False, ?off)" by blast
  from C9_commands_not_applicable[of ?on] b
  have 2: "closeLintPanel ?on = (False, ?on)" by blast
  from 1 2 show ?thesis by simp
qed

subsection \<open>The selection points into the current set\<close>

lemma findDiagnostic_live:
  assumes "findDiagnostic ds dopt pos = Some sel"
  shows "\<exists>r\<in>set ds. selected_of_range r = sel"
proof -
  from assms obtain r where
    "find (\<lambda>r. touches pos (set_length ds) r \<and> wanted dopt r) ds = Some r" "selected_of_range r = sel"
    by (auto simp: findDiagnostic_find)
  then show ?thesis
    by (auto simp: find_Some_iff)
qed

lemma live_setDiagnostics:
  "setDiagnostics tr = Some D \<Longrightarrow> selection_live (new_value v tr st)"
  by (auto simp: new_value_setDiagnostics selection_live_def split: option.splits
      dest: findDiagnostic_live)

lemma live_docChanged:
  assumes "setDiagnostics tr = None" "setState tr = None" "docChanged tr"
  shows "selection_live (new_value v tr st)"
  unfolding new_value_docChanged[OF assms]
  by (auto simp: selection_live_def split: option.splits dest: findDiagnostic_live)

lemma live_new_value:
  assumes "selection_live v" and "setState tr = None"
  shows "selection_live (new_value v tr st)"
proof (cases "setDiagnostics tr")
  case (Some D)
  then show ?thesis by (rule live_setDiagnostics)
next
  case None
  show ?thesis
  proof (cases "docChanged tr")
    case True
    with None assms(2) show ?thesis by (simp add: live_docChanged)
  next
    case False
    with None assms show ?thesis by (simp add: new_value_def update_def)
  qed
qed

lemma live_dispatch_doc:
  "field_live view \<Longrightarrow> setState tr = None \<Longrightarrow> field_live (dispatch_doc view tr n)"
  by (auto simp: field_live_def dispatch_doc_def live_new_value split: option.splits)

lemma live_open:
  assumes "field_live view" and "openLintPanel view = Some (b, view')"
  shows "field_live view'"
proof (cases "field (state view)")
  case None
  with assms show ?thesis by (simp add: openLintPanel_def)
next
  case (Some fld)
  show ?thesis
  proof (cases "panel fld = None")
    case True
    let ?s = "\<lparr>diagnostics = diagnostics fld, panel = Some LintPanel_open, selected = selected fld\<rparr>"
    have f1: "field (state (dispatch view (annotate_setState ?s state_t))) = Some ?s"
      using Some by (rule field_dispatch_setState)
    have "selection_live ?s"
      using assms(1) Some by (simp add: field_live_def selection_live_def split: option.splits)
    with assms(2) Some True f1 show ?thesis
      by (auto simp: openLintPanel_def Let_def field_live_def)
  next
    case False
    with assms Some show ?thesis
      by (auto simp: openLintPanel_def Let_def field_live_def)
  qed
qed

lemma live_close:
  assumes "field_live view" and "closeLintPanel view = (b, view')"
  shows "field_live view'"
proof (cases "field (state view)")
  case None
  with assms show ?thesis by (simp add: closeLintPanel_def)
next
  case (Some fld)
  show ?thesis
  proof (cases "panel fld = None")
    case True
    with assms Some show ?thesis by (simp add: closeLintPanel_def)
  next
    case False
    let ?s = "\<lparr>diagnostics = diagnostics fld, panel = None, selected = selected fld\<rparr>"
    have f1: "field (state (dispatch view (annotate_setState ?s state_t))) = Some ?s"
      using Some by (rule field_dispatch_setState)
    have "selection_live ?s"
      using assms(1) Some by (simp add: field_live_def selection_live_def split: option.splits)
    with assms(2) Some False f1 show ?thesis
      by (auto simp: closeLintPanel_def field_live_def)
  qed
qed

lemma live_move:
  assumes "field_live view" and "moveSelection pnl view k = Some view'"
  shows "field_live view'"
proof (cases "items pnl = []")
  case True
  with assms show ?thesis by (simp add: moveSelection_def)
next
  case False
  from assms(2) False obtain fld where fld: "field (state view) = Some fld"
    by (auto simp: moveSelection_def split: option.splits)
  from assms(2) False fld have k: "k < length (items pnl)"
    by (auto simp: moveSelection_def split: if_splits)
  show ?thesis
  proof (cases "findDiagnostic (diagnostics fld) (Some (item_diagnostic (items pnl ! k))) 0")
    case None
    with assms False fld k show ?thesis by (simp add: moveSelection_def)
  next
    case (Some selection)
    let ?s = "\<lparr>diagnostics = diagnostics fld, panel = panel fld, selected = Some selection\<rparr>"
    have f1: "field (state (dispatch view (annotate_setState ?s state_t))) = Some ?s"
      using fld by (rule field_dispatch_setState)
    have "selection_live ?s"
      using findDiagnostic_live[OF Some] by (simp add: selection_live_def)
    with assms(2) False fld k Some f1 show ?thesis
      by (auto simp: moveSelection_def field_live_def)
  qed
qed

lemma reachable_live: "reachable view \<Longrightarrow> field_live view"
proof (induction rule: reachable.induct)
  case (attached view)
  then show ?case by (simp add: field_live_def selection_live_def create_def)
next
  case (transaction view tr n)
  then show ?case by (simp add: live_dispatch_doc)
next
  case (open_panel view b view')
  then show ?case by (blast intro: live_open)
next
  case (close_panel view b view')
  then show ?case by (blast intro: live_close)
next
  case (move_selection view pnl k view')
  then show ?case by (blast intro: live_move)
qed

text \<open>
  C4. In every view a session can reach, a selection that is present has the
  \<open>from\<close>, \<open>to\<close> and diagnostic of a range of the state's set; and so has the
  state the reducer gives from such a state on any transaction (the transactions
  with the private \<open>setState\<close> annotation are those of the three commands, which
  lead to reachable views again).
\<close>

theorem C4_selection_is_live:
  assumes "reachable view" and "field (state view) = Some v"
  shows "(\<forall>sel. selected v = Some sel \<longrightarrow>
            (\<exists>r\<in>set (diagnostics v). range_from r = sel_from sel \<and> range_to r = sel_to sel \<and>
                spec_diagnostic (range_value r) = sel_diagnostic sel)) \<and>
         (\<forall>tr st sel. setState tr = None \<and> selected (new_value v tr st) = Some sel \<longrightarrow>
            (\<exists>r\<in>set (diagnostics (new_value v tr st)).
                range_from r = sel_from sel \<and> range_to r = sel_to sel \<and>
                spec_diagnostic (range_value r) = sel_diagnostic sel))"
proof -
  have expand: "\<exists>r\<in>set (diagnostics w). range_from r = sel_from sel \<and> range_to r = sel_to sel \<and>
                spec_diagnostic (range_value r) = sel_diagnostic sel"
    if "selection_live w" "selected w = Some sel" for w sel
    using that by (auto simp: selection_live_def selected_of_range_def)
  have v: "selection_live v"
    using reachable_live[OF assms(1)] assms(2) by (simp add: field_live_def)
  have "selection_live (new_value v tr st)" if "setState tr = None" for tr st
    using v that by (rule live_new_value)
  with v expand show ?thesis by blast
qed


theorem C4_selection_is_live_witness:
  "\<exists>r\<in>set (diagnostics (new_value create (annotate_setDiagnostics [diag 1 5 7] state_t)
                            \<lparr>doc_length = 20, field = Some create\<rparr>)).
      range_from r = 5 \<and> range_to r = 7 \<and> spec_diagnostic (range_value r) = diag 1 5 7"
proof -
  let ?tr = "annotate_setDiagnostics [diag 1 5 7] state_t"
  let ?st = "\<lparr>doc_length = 20, field = Some create\<rparr>"
  let ?view = "\<lparr>state = ?st, dispatched = [], focused = False\<rparr>"
  have "reachable ?view"
    by (rule attached) simp
  moreover have "setState ?tr = None"
    by (simp add: annotate_setDiagnostics_def state_t_def)
  ultimately have reach: "reachable (dispatch_doc ?view ?tr 20)"
    by (rule transaction)
  have fld: "field (state (dispatch_doc ?view ?tr 20)) = Some (new_value create ?tr ?st)"
    by (simp add: dispatch_doc_def)
  have h1: "setDiagnostics ?tr = Some [diag 1 5 7]"
    by (simp add: annotate_setDiagnostics_def)
  have sel: "selected (new_value create ?tr ?st) = Some (SelectedDiagnostic 5 7 (diag 1 5 7))"
    unfolding new_value_setDiagnostics[OF h1]
    by (simp add: Decoration_set_def diagnostic_range_def Decoration_mark_def diag_def
          findDiagnostic_def set_length_def touches_def findDiagnostic_visit_def)
  from C4_selection_is_live[OF reach fld] sel show ?thesis
    by fastforce
qed

subsection \<open>The plugin's timer\<close>













subsection \<open>The panel's list\<close>

declare find_item.simps [simp del] pop_while.simps [simp del]

lemma pop_while_take: "pop_while k xs = take k xs"
proof (induction k xs rule: pop_while.induct)
  case (1 k xs)
  show ?case
  proof (cases "k < length xs")
    case True
    then have "pop_while k xs = pop_while k (butlast xs)"
      by (subst pop_while.simps) simp
    also have "\<dots> = take k (butlast xs)" using True by (rule "1.IH")
    also have "\<dots> = take k xs" using True by (simp add: take_butlast)
    finally show ?thesis .
  next
    case False
    then show ?thesis by (subst pop_while.simps) simp
  qed
qed

lemma find_item_None:
  "find_item its d j = None \<longleftrightarrow> dropWhile (\<lambda>item. item_diagnostic item \<noteq> d) (drop j its) = []"
proof (induction its d j rule: find_item.induct)
  case (1 its d j)
  show ?case
  proof (cases "j < length its")
    case False
    then show ?thesis by (subst find_item.simps) simp
  next
    case True
    then have split: "drop j its = its ! j # drop (j + 1) its"
      by (simp add: Cons_nth_drop_Suc)
    show ?thesis
    proof (cases "item_diagnostic (its ! j) = d")
      case True
      with \<open>j < length its\<close> split show ?thesis by (subst find_item.simps) simp
    next
      case False
      with \<open>j < length its\<close> have "find_item its d j = find_item its d (j + 1)"
        by (subst find_item.simps) simp
      with "1.IH"[OF \<open>j < length its\<close> False] split False show ?thesis by simp
    qed
  qed
qed

lemma find_item_Some:
  "find_item its d j = Some k \<Longrightarrow>
     j \<le> k \<and> k < length its \<and>
     dropWhile (\<lambda>item. item_diagnostic item \<noteq> d) (drop j its) = its ! k # drop (k + 1) its"
proof (induction its d j rule: find_item.induct)
  case (1 its d j)
  show ?case
  proof (cases "j < length its")
    case False
    with "1.prems" show ?thesis by (subst (asm) find_item.simps) simp
  next
    case True
    then have split: "drop j its = its ! j # drop (j + 1) its"
      by (simp add: Cons_nth_drop_Suc)
    show ?thesis
    proof (cases "item_diagnostic (its ! j) = d")
      case True
      with \<open>j < length its\<close> "1.prems" have "k = j"
        by (subst (asm) find_item.simps) simp
      with True \<open>j < length its\<close> split show ?thesis by simp
    next
      case False
      with \<open>j < length its\<close> "1.prems" have "find_item its d (j + 1) = Some k"
        by (subst (asm) find_item.simps) simp
      from "1.IH"[OF \<open>j < length its\<close> False this] split False show ?thesis by simp
    qed
  qed
qed

lemma mark_selected_frame:
  "loop_items (mark_selected sel item l) = loop_items l"
  "loop_i (mark_selected sel item l) = loop_i l"
  "loop_next_id (mark_selected sel item l) = loop_next_id l"
  "needsSync (mark_selected sel item l) = needsSync l"
  by (simp_all add: mark_selected_def)

lemma update_visit_continues: "snd (update_visit sel a b deco l) = True"
  by (simp add: update_visit_def Let_def split: prod.splits)

lemma update_visit_step:
  fixes sel a b deco l
  assumes "loop_i l \<le> length (loop_items l)"
  defines "l' \<equiv> fst (update_visit sel a b deco l)"
  shows "loop_i l' = loop_i l + 1 \<and>
         (case dropWhile (\<lambda>item. item_diagnostic item \<noteq> spec_diagnostic deco)
                 (drop (loop_i l) (loop_items l)) of
            [] \<Rightarrow> loop_items l' = take (loop_i l) (loop_items l)
                     @ \<lparr>item_id = loop_next_id l, item_diagnostic = spec_diagnostic deco\<rparr>
                     # drop (loop_i l) (loop_items l) \<and>
                  loop_next_id l' = loop_next_id l + 1
          | found # rest \<Rightarrow> loop_items l' = take (loop_i l) (loop_items l) @ found # rest \<and>
                  loop_next_id l' = loop_next_id l)"
proof (cases "find_item (loop_items l) (spec_diagnostic deco) (loop_i l)")
  case None
  then have "dropWhile (\<lambda>item. item_diagnostic item \<noteq> spec_diagnostic deco)
                 (drop (loop_i l) (loop_items l)) = []"
    by (simp add: find_item_None)
  with None show ?thesis
    by (simp add: l'_def update_visit_def Let_def mark_selected_frame splice_insert_def
          del: dropWhile_eq_Nil_conv)
next
  case (Some k)
  from find_item_Some[OF Some] have k: "loop_i l \<le> k" "k < length (loop_items l)"
    and dw: "dropWhile (\<lambda>item. item_diagnostic item \<noteq> spec_diagnostic deco)
                 (drop (loop_i l) (loop_items l)) = loop_items l ! k # drop (k + 1) (loop_items l)"
    by simp_all
  show ?thesis
  proof (cases "loop_i l < k")
    case True
    have "take (loop_i l) (loop_items l) @ drop (loop_i l + (k - loop_i l)) (loop_items l)
        = take (loop_i l) (loop_items l) @ loop_items l ! k # drop (k + 1) (loop_items l)"
      using k by (simp add: Cons_nth_drop_Suc)
    with Some True dw show ?thesis
      by (simp add: l'_def update_visit_def Let_def mark_selected_frame splice_remove_def)
  next
    case False
    with k have eq: "k = loop_i l" by simp
    have "loop_items l = take (loop_i l) (loop_items l) @ loop_items l ! k # drop (k + 1) (loop_items l)"
      using k eq by (simp add: Cons_nth_drop_Suc)
    with Some False dw show ?thesis
      by (simp add: l'_def update_visit_def Let_def mark_selected_frame)
  qed
qed

lemma between_all:
  assumes "\<And>a b deco s. snd (f a b deco s) = True"
  shows "between ds qfrom qto f s =
         fold (\<lambda>r s. fst (f (range_from r) (range_to r) (range_value r) s)) (filter (touches qfrom qto) ds) s"
proof (induction ds arbitrary: s)
  case Nil
  show ?case by simp
next
  case (Cons r rs)
  show ?case
  proof (cases "touches qfrom qto r")
    case False
    with Cons show ?thesis by simp
  next
    case True
    obtain s' c where fr: "f (range_from r) (range_to r) (range_value r) s = (s', c)"
      by (cases "f (range_from r) (range_to r) (range_value r) s")
    with assms[of "range_from r" "range_to r" "range_value r" s] have "c = True" by simp
    with True fr Cons show ?thesis by simp
  qed
qed

lemma fold_visit_reconcile:
  fixes sel rs l
  assumes "loop_i l \<le> length (loop_items l)"
  defines "l' \<equiv> fold (\<lambda>r s. fst (update_visit sel (range_from r) (range_to r) (range_value r) s)) rs l"
  shows "take (loop_i l') (loop_items l') =
           take (loop_i l) (loop_items l)
             @ reconcile_spec (loop_next_id l) (map (\<lambda>r. spec_diagnostic (range_value r)) rs)
                 (drop (loop_i l) (loop_items l))"
  using assms(1) unfolding l'_def
proof (induction rs arbitrary: l)
  case Nil
  show ?case by simp
next
  case (Cons r rs)
  let ?l1 = "fst (update_visit sel (range_from r) (range_to r) (range_value r) l)"
  let ?d = "spec_diagnostic (range_value r)"
  let ?tail = "drop (loop_i l) (loop_items l)"
  note step = update_visit_step[OF Cons.prems, of sel "range_from r" "range_to r" "range_value r"]
  show ?case
  proof (cases "dropWhile (\<lambda>item. item_diagnostic item \<noteq> ?d) ?tail")
    case Nil
    with step have i1: "loop_i ?l1 = loop_i l + 1"
      and it: "loop_items ?l1 = take (loop_i l) (loop_items l)
                     @ \<lparr>item_id = loop_next_id l, item_diagnostic = ?d\<rparr> # ?tail"
      and n1: "loop_next_id ?l1 = loop_next_id l + 1"
      by (simp_all del: dropWhile_eq_Nil_conv)
    have len: "loop_i ?l1 \<le> length (loop_items ?l1)"
      using Cons.prems by (simp add: i1 it)
    have tk: "take (loop_i ?l1) (loop_items ?l1) =
        take (loop_i l) (loop_items l) @ [\<lparr>item_id = loop_next_id l, item_diagnostic = ?d\<rparr>]"
      using Cons.prems by (simp add: i1 it)
    have dr: "drop (loop_i ?l1) (loop_items ?l1) = ?tail"
      using Cons.prems by (simp add: i1 it)
    from Cons.IH[OF len] Nil show ?thesis
      by (simp add: tk dr n1 del: dropWhile_eq_Nil_conv)
  next
    case (Cons found rest)
    with step have i1: "loop_i ?l1 = loop_i l + 1"
      and it: "loop_items ?l1 = take (loop_i l) (loop_items l) @ found # rest"
      and n1: "loop_next_id ?l1 = loop_next_id l"
      by simp_all
    have len: "loop_i ?l1 \<le> length (loop_items ?l1)"
      using Cons.prems by (simp add: i1 it)
    have tk: "take (loop_i ?l1) (loop_items ?l1) = take (loop_i l) (loop_items l) @ [found]"
      using Cons.prems by (simp add: i1 it)
    have dr: "drop (loop_i ?l1) (loop_items ?l1) = rest"
      using Cons.prems by (simp add: i1 it)
    from Cons.IH[OF len] Cons show ?thesis
      by (simp add: tk dr n1)
  qed
qed

lemma LintPanel_update_items:
  assumes "field st = Some fld"
  shows "\<exists>pnl' sync. LintPanel_update pnl st = Some (pnl', sync) \<and>
           items pnl' = reconcile_spec (next_id pnl) (visited (diagnostics fld) 0 (doc_length st)) (items pnl)"
proof -
  let ?l0 = "\<lparr>loop_items = items pnl, loop_i = 0, needsSync = False, newSelectedItem = None,
              loop_aria = aria_selected pnl, loop_next_id = next_id pnl\<rparr>"
  have "loop_i ?l0 \<le> length (loop_items ?l0)" by simp
  from fold_visit_reconcile[OF this, of "selected fld" "filter (touches 0 (doc_length st)) (diagnostics fld)"]
  show ?thesis
    using assms
    by (simp add: LintPanel_update_def Let_def pop_while_take visited_def
          between_all[of "update_visit (selected fld)", OF update_visit_continues])
qed

lemma reconcile_diagnostics: "map item_diagnostic (reconcile_spec n ds tail) = ds"
proof (induction ds arbitrary: n tail)
  case Nil
  show ?case by simp
next
  case (Cons d ds)
  show ?case
  proof (cases "dropWhile (\<lambda>item. item_diagnostic item \<noteq> d) tail")
    case Nil
    with Cons.IH show ?thesis by (simp del: dropWhile_eq_Nil_conv)
  next
    case (Cons found rest)
    then have "item_diagnostic found = d"
      using hd_dropWhile[of "\<lambda>item. item_diagnostic item \<noteq> d" tail] by simp
    with Cons Cons.IH show ?thesis by simp
  qed
qed

lemma reconcile_example:
  "reconcile_spec 3 [diag 1 1 2, diag 3 5 6, diag 4 7 8]
     [\<lparr>item_id = 0, item_diagnostic = diag 1 1 2\<rparr>,
      \<lparr>item_id = 1, item_diagnostic = diag 2 3 4\<rparr>,
      \<lparr>item_id = 2, item_diagnostic = diag 3 5 6\<rparr>]
   = [\<lparr>item_id = 0, item_diagnostic = diag 1 1 2\<rparr>,
      \<lparr>item_id = 2, item_diagnostic = diag 3 5 6\<rparr>,
      \<lparr>item_id = 3, item_diagnostic = diag 4 7 8\<rparr>]"
  by (simp add: diag_def)

lemma visited_example:
  "visited (Decoration_set (map diagnostic_range [diag 1 1 2, diag 3 5 6, diag 4 7 8])) 0 10
     = [diag 1 1 2, diag 3 5 6, diag 4 7 8]"
  by (simp add: visited_def Decoration_set_def diagnostic_range_def Decoration_mark_def
        range_key_def diag_def touches_def)

text \<open>
  C6. \<open>LintPanel.update\<close> leaves the list of items that the single forward pass of
  the spec gives (\<open>reconcile_spec\<close>) from the previous items and the diagnostics
  the set yields in position order: for each diagnostic the first item from the
  cursor on that holds it is reused, the items skipped before it are removed, and a
  new item is inserted at the cursor when there is none; the items left after the
  walk are removed. The items then hold the current diagnostics, in order. In
  particular, with the previous items of A, B and C (objects 0, 1, 2) and the current
  diagnostics A, C, D, the result is the items 0 and 2 themselves and a new item 3
  for D: B's item is removed, A's and C's are reused.
\<close>

theorem C6_single_forward_pass:
  "(field st = Some fld \<longrightarrow>
      (\<exists>pnl' sync. LintPanel_update pnl st = Some (pnl', sync) \<and>
         items pnl' = reconcile_spec (next_id pnl) (visited (diagnostics fld) 0 (doc_length st)) (items pnl) \<and>
         map item_diagnostic (items pnl') = visited (diagnostics fld) 0 (doc_length st))) \<and>
   (\<exists>pnl' sync.
      LintPanel_update
        \<lparr>items = [\<lparr>item_id = 0, item_diagnostic = diag 1 1 2\<rparr>,
                  \<lparr>item_id = 1, item_diagnostic = diag 2 3 4\<rparr>,
                  \<lparr>item_id = 2, item_diagnostic = diag 3 5 6\<rparr>],
         aria_selected = {}, activedescendant = None, next_id = 3\<rparr>
        \<lparr>doc_length = 10,
         field = Some \<lparr>diagnostics = Decoration_set (map diagnostic_range [diag 1 1 2, diag 3 5 6, diag 4 7 8]),
                       panel = Some LintPanel_open, selected = None\<rparr>\<rparr>
        = Some (pnl', sync) \<and>
      items pnl' = [\<lparr>item_id = 0, item_diagnostic = diag 1 1 2\<rparr>,
                    \<lparr>item_id = 2, item_diagnostic = diag 3 5 6\<rparr>,
                    \<lparr>item_id = 3, item_diagnostic = diag 4 7 8\<rparr>])"
proof -
  have general: "\<exists>pnl' sync. LintPanel_update pnl st = Some (pnl', sync) \<and>
         items pnl' = reconcile_spec (next_id pnl) (visited (diagnostics fld) 0 (doc_length st)) (items pnl) \<and>
         map item_diagnostic (items pnl') = visited (diagnostics fld) 0 (doc_length st)"
    if "field st = Some fld"
    using LintPanel_update_items[OF that, of pnl] by (auto simp: reconcile_diagnostics)
  let ?pnl = "\<lparr>items = [\<lparr>item_id = 0, item_diagnostic = diag 1 1 2\<rparr>,
                  \<lparr>item_id = 1, item_diagnostic = diag 2 3 4\<rparr>,
                  \<lparr>item_id = 2, item_diagnostic = diag 3 5 6\<rparr>],
         aria_selected = {}, activedescendant = None, next_id = 3\<rparr>"
  let ?fld = "\<lparr>diagnostics = Decoration_set (map diagnostic_range [diag 1 1 2, diag 3 5 6, diag 4 7 8]),
                       panel = Some LintPanel_open, selected = None\<rparr>"
  let ?st = "\<lparr>doc_length = 10, field = Some ?fld\<rparr>"
  have "field ?st = Some ?fld" by simp
  from LintPanel_update_items[OF this, of ?pnl]
  have example: "\<exists>pnl' sync. LintPanel_update ?pnl ?st = Some (pnl', sync) \<and>
      items pnl' = [\<lparr>item_id = 0, item_diagnostic = diag 1 1 2\<rparr>,
                    \<lparr>item_id = 2, item_diagnostic = diag 3 5 6\<rparr>,
                    \<lparr>item_id = 3, item_diagnostic = diag 4 7 8\<rparr>]"
    unfolding EditorState.simps LintState.simps LintPanel.simps visited_example reconcile_example .
  from general example show ?thesis by blast
qed

theorem C6_single_forward_pass_witness:
  "\<exists>pnl' sync.
      LintPanel_update
        \<lparr>items = [\<lparr>item_id = 0, item_diagnostic = diag 1 1 2\<rparr>,
                  \<lparr>item_id = 1, item_diagnostic = diag 2 3 4\<rparr>,
                  \<lparr>item_id = 2, item_diagnostic = diag 3 5 6\<rparr>],
         aria_selected = {}, activedescendant = None, next_id = 3\<rparr>
        \<lparr>doc_length = 10,
         field = Some \<lparr>diagnostics = Decoration_set (map diagnostic_range [diag 2 3 4, diag 4 7 8]),
                       panel = Some LintPanel_open, selected = None\<rparr>\<rparr>
        = Some (pnl', sync) \<and>
      items pnl' = [\<lparr>item_id = 1, item_diagnostic = diag 2 3 4\<rparr>,
                    \<lparr>item_id = 3, item_diagnostic = diag 4 7 8\<rparr>]"
proof -
  let ?pnl = "\<lparr>items = [\<lparr>item_id = 0, item_diagnostic = diag 1 1 2\<rparr>,
                  \<lparr>item_id = 1, item_diagnostic = diag 2 3 4\<rparr>,
                  \<lparr>item_id = 2, item_diagnostic = diag 3 5 6\<rparr>],
         aria_selected = {}, activedescendant = None, next_id = 3\<rparr>"
  let ?fld = "\<lparr>diagnostics = Decoration_set (map diagnostic_range [diag 2 3 4, diag 4 7 8]),
                       panel = Some LintPanel_open, selected = None\<rparr>"
  let ?st = "\<lparr>doc_length = 10, field = Some ?fld\<rparr>"
  have f: "field ?st = Some ?fld" by simp
  have v: "visited (diagnostics ?fld) 0 (doc_length ?st) = [diag 2 3 4, diag 4 7 8]"
    by (simp add: visited_def Decoration_set_def diagnostic_range_def Decoration_mark_def
        range_key_def diag_def touches_def)
  have r: "reconcile_spec (next_id ?pnl) [diag 2 3 4, diag 4 7 8] (items ?pnl)
            = [\<lparr>item_id = 1, item_diagnostic = diag 2 3 4\<rparr>,
               \<lparr>item_id = 3, item_diagnostic = diag 4 7 8\<rparr>]"
    by (simp add: diag_def)
  from C6_single_forward_pass[of ?st ?fld ?pnl] f
  have "\<exists>pnl' sync. LintPanel_update ?pnl ?st = Some (pnl', sync) \<and>
         items pnl' = reconcile_spec (next_id ?pnl) (visited (diagnostics ?fld) 0 (doc_length ?st)) (items ?pnl)"
    by blast
  then show ?thesis
    unfolding v r .
qed

end
